theory Spec2Isabelle
  imports Main "HOL-Library.Word"
begin

section \<open>The thread-safe hashmap of ts\_hashmap.c, executed sequentially\<close>

text \<open>
  The map of \<^verbatim>\<open>ts_hashmap.c\<close> is a fixed array of buckets, each a singly linked chain
  of entries, with two counters. This theory embeds \<^verbatim>\<open>initmap\<close>, \<^verbatim>\<open>get\<close>,
  \<^verbatim>\<open>put\<close> and \<^verbatim>\<open>del\<close> as functions on an explicit map state. Every call runs
  alone, from its first statement to its return: the mutexes and the spin lock guard
  critical sections that the sequential model executes one after the other, so they carry
  no state here. What C leaves undefined (a zero divisor, an index outside the table, a
  write through a null pointer) is a \<open>fault\<close> value of the result.
\<close>

subsection \<open>Data\<close>

text \<open>
  C's \<^verbatim>\<open>int\<close> and \<^verbatim>\<open>unsigned int\<close> are 32-bit words: \<open>sint\<close> reads the signed
  value, \<open>unat\<close> the unsigned one, and the cast \<^verbatim>\<open>(unsigned int)key\<close> keeps the bits.
\<close>

type_synonym c_int = "32 word"

text \<open>\<^verbatim>\<open>INT_MAX\<close> of \<^verbatim>\<open>limits.h\<close>, the value returned for a key that is not found.\<close>

definition INT_MAX :: c_int where
  "INT_MAX = 0x7FFFFFFF"

text \<open>
  Modelled from the spec: the header \<^verbatim>\<open>ts_hashmap.h\<close> with the declarations of
  \<^verbatim>\<open>ts_entry_t\<close> and \<^verbatim>\<open>ts_hashmap_t\<close> is missing. An entry holds an integer key and
  an integer value and a reference to the next entry of its chain; the fields are the
  ones the source reads and writes. The \<^verbatim>\<open>next\<close> pointer is the tail of the list that
  holds the entry: a chain is the list of its entries from the head to the last one, and
  \<^verbatim>\<open>NULL\<close> is the empty list.
\<close>

record ts_entry =
  key :: c_int
  value_e :: c_int

type_synonym chain = "ts_entry list"

text \<open>
  Modelled from the spec: the map owns the bucket array \<^verbatim>\<open>table\<close>, the \<^verbatim>\<open>capacity\<close>
  given at construction and the counters \<^verbatim>\<open>numOps\<close> and \<^verbatim>\<open>size\<close>, which the source
  steps with \<^verbatim>\<open>++\<close> and \<^verbatim>\<open>--\<close> and which are taken to be \<^verbatim>\<open>int\<close> as the
  capacity is. The lock arrays hold no data.
\<close>

record ts_hashmap =
  table :: "chain list"
  capacity :: c_int
  numOps :: c_int
  size_m :: c_int

datatype fault = DivByZero | OutOfBounds | NullDeref

subsection \<open>Construction\<close>

text \<open>
  \<^verbatim>\<open>initmap\<close> calls \<^verbatim>\<open>malloc\<close> for the map, the table, the array of lock pointers,
  one mutex per bucket and the spin lock, and checks none of the results. The outcome of
  each call is an input of the model: \<open>True\<close> when \<^verbatim>\<open>malloc\<close> returned a block.
\<close>

record mallocs =
  map_ok :: bool
  table_ok :: bool
  entryLocks_ok :: bool
  entryLock_ok :: "nat \<Rightarrow> bool"
  propsLock_ok :: bool

text \<open>
  The loop \<^verbatim>\<open>for (int i = 0; i < capacity; i++)\<close>. The counter stays below the
  capacity, so it never overflows and is an \<open>int\<close> here. Each round stores \<^verbatim>\<open>NULL\<close>
  in \<^verbatim>\<open>table[i]\<close>, stores a new mutex in \<^verbatim>\<open>entryLocks[i]\<close> and initialises it.
\<close>

function init_loop :: "mallocs \<Rightarrow> int \<Rightarrow> int \<Rightarrow> chain list \<Rightarrow> fault + chain list" where
  "init_loop a cap i tbl =
     (if i < cap then
        if \<not> table_ok a then Inl NullDeref
        else if \<not> entryLocks_ok a then Inl NullDeref
        else if \<not> entryLock_ok a (nat i) then Inl NullDeref
        else init_loop a cap (i + 1) (tbl @ [[]])
      else Inr tbl)"
  by pat_completeness auto
termination
  by (relation "measure (\<lambda>(a, cap, i, tbl). nat (cap - i))") auto

declare init_loop.simps [simp del]

definition initmap :: "mallocs \<Rightarrow> c_int \<Rightarrow> fault + ts_hashmap" where
  "initmap a cap =
     (if \<not> map_ok a then Inl NullDeref
      else case init_loop a (sint cap) 0 [] of
        Inl f \<Rightarrow> Inl f
      | Inr tbl \<Rightarrow>
          if \<not> propsLock_ok a then Inl NullDeref
          else Inr \<lparr>table = tbl, capacity = cap, numOps = 0, size_m = 0\<rparr>)"

subsection \<open>get\<close>

text \<open>The \<^verbatim>\<open>while\<close> loop of \<^verbatim>\<open>get\<close>: the value of the first entry with the key.\<close>

fun get_scan :: "chain \<Rightarrow> c_int \<Rightarrow> c_int" where
  "get_scan [] k = INT_MAX"
| "get_scan (e # es) k = (if key e = k then value_e e else get_scan es k)"

definition get :: "ts_hashmap \<Rightarrow> c_int \<Rightarrow> fault + (c_int \<times> ts_hashmap)" where
  "get m k =
     (let m1 = m\<lparr>numOps := numOps m + 1\<rparr> in
      if capacity m1 = 0 then Inl DivByZero
      else let index = unat (k mod capacity m1) in
        if length (table m1) \<le> index then Inl OutOfBounds
        else Inr (get_scan (table m1 ! index) k, m1))"

subsection \<open>put\<close>

text \<open>
  The \<^verbatim>\<open>while\<close> loop of \<^verbatim>\<open>put\<close>: at the first entry with the key it stores the new
  value in that entry and yields the old one; \<open>None\<close> when the chain ends.
\<close>

fun put_scan :: "chain \<Rightarrow> c_int \<Rightarrow> c_int \<Rightarrow> (c_int \<times> chain) option" where
  "put_scan [] k v = None"
| "put_scan (e # es) k v =
     (if key e = k then Some (value_e e, e\<lparr>value_e := v\<rparr> # es)
      else case put_scan es k v of
        None \<Rightarrow> None
      | Some (oldValue, es') \<Rightarrow> Some (oldValue, e # es'))"

text \<open>
  \<open>malloc_ok\<close> is the outcome of the \<^verbatim>\<open>malloc\<close> of the new entry, which the source
  writes through without a check.
\<close>

definition put :: "bool \<Rightarrow> ts_hashmap \<Rightarrow> c_int \<Rightarrow> c_int \<Rightarrow> fault + (c_int \<times> ts_hashmap)" where
  "put malloc_ok m k v =
     (if capacity m = 0 then Inl DivByZero
      else let index = unat (k mod capacity m) in
        if length (table m) \<le> index then Inl OutOfBounds
        else case put_scan (table m ! index) k v of
          Some (oldValue, es) \<Rightarrow>
            Inr (oldValue, m\<lparr>table := (table m)[index := es], numOps := numOps m + 1\<rparr>)
        | None \<Rightarrow>
            if \<not> malloc_ok then Inl NullDeref
            else Inr (INT_MAX,
              m\<lparr>table := (table m)[index := \<lparr>key = k, value_e = v\<rparr> # table m ! index],
                numOps := numOps m + 1, size_m := size_m m + 1\<rparr>))"

subsection \<open>del\<close>

text \<open>
  The \<^verbatim>\<open>while\<close> loop of \<^verbatim>\<open>del\<close>: the first entry with the key is unlinked (from
  the head pointer, or from its predecessor) and its value is returned with the chain
  that is left; \<open>None\<close> when the chain ends.
\<close>

fun del_scan :: "chain \<Rightarrow> c_int \<Rightarrow> (c_int \<times> chain) option" where
  "del_scan [] k = None"
| "del_scan (e # es) k =
     (if key e = k then Some (value_e e, es)
      else case del_scan es k of
        None \<Rightarrow> None
      | Some (v, es') \<Rightarrow> Some (v, e # es'))"

definition del :: "ts_hashmap \<Rightarrow> c_int \<Rightarrow> fault + (c_int \<times> ts_hashmap)" where
  "del m k =
     (let m1 = m\<lparr>numOps := numOps m + 1, size_m := size_m m - 1\<rparr> in
      if capacity m1 = 0 then Inl DivByZero
      else let index = unat (k mod capacity m1) in
        if length (table m1) \<le> index then Inl OutOfBounds
        else case del_scan (table m1 ! index) k of
          Some (v, es) \<Rightarrow> Inr (v, m1\<lparr>table := (table m1)[index := es]\<rparr>)
        | None \<Rightarrow> Inr (INT_MAX, m1))"

subsection \<open>Sequences of calls\<close>

text \<open>
  A client calls the three operations one after the other on the map that \<^verbatim>\<open>initmap\<close>
  returned. A call comes with the outcome of the \<^verbatim>\<open>malloc\<close> it may make (only
  \<^verbatim>\<open>put\<close> makes one); a fault ends the run.
\<close>

datatype call = Get c_int | Put c_int c_int | Del c_int

fun exec :: "ts_hashmap \<Rightarrow> call \<times> bool \<Rightarrow> fault + (c_int \<times> ts_hashmap)" where
  "exec m (Get k, ok) = get m k"
| "exec m (Put k v, ok) = put ok m k v"
| "exec m (Del k, ok) = del m k"

fun run :: "ts_hashmap \<Rightarrow> (call \<times> bool) list \<Rightarrow> fault + ts_hashmap" where
  "run m [] = Inr m"
| "run m (c # cs) =
     (case exec m c of
        Inl f \<Rightarrow> Inl f
      | Inr (r, m') \<Rightarrow> run m' cs)"

subsection \<open>Predicates of the statements\<close>

text \<open>The bucket a key belongs to: \<^verbatim>\<open>((unsigned int)key) % map->capacity\<close>.\<close>

definition bucket_index :: "ts_hashmap \<Rightarrow> c_int \<Rightarrow> nat" where
  "bucket_index m k = unat (k mod capacity m)"

text \<open>
  A map as \<^verbatim>\<open>initmap\<close> builds it for a positive capacity: the table has one slot per
  bucket. No operation changes the capacity or the number of slots.
\<close>

definition valid_map :: "ts_hashmap \<Rightarrow> bool" where
  "valid_map m \<longleftrightarrow> 0 < sint (capacity m) \<and> length (table m) = unat (capacity m)"

text \<open>No chain holds two entries with the same key.\<close>

definition unique_keys :: "ts_hashmap \<Rightarrow> bool" where
  "unique_keys m \<longleftrightarrow> list_all (\<lambda>es. distinct (map key es)) (table m)"

text \<open>Some chain of the map holds an entry with the key.\<close>

definition present :: "ts_hashmap \<Rightarrow> c_int \<Rightarrow> bool" where
  "present m k \<longleftrightarrow> list_ex (\<lambda>es. list_ex (\<lambda>e. key e = k) es) (table m)"

text \<open>The number of entries in all chains together.\<close>

definition entry_count :: "ts_hashmap \<Rightarrow> nat" where
  "entry_count m = sum_list (map length (table m))"

text \<open>Every \<^verbatim>\<open>malloc\<close> of \<^verbatim>\<open>initmap\<close> succeeds.\<close>

definition all_ok :: mallocs where
  "all_ok = \<lparr>map_ok = True, table_ok = True, entryLocks_ok = True,
     entryLock_ok = (\<lambda>i. True), propsLock_ok = True\<rparr>"

text \<open>The map that \<^verbatim>\<open>initmap(4)\<close> returns when every allocation succeeds.\<close>

definition empty_map4 :: ts_hashmap where
  "empty_map4 = \<lparr>table = [[], [], [], []], capacity = 4, numOps = 0, size_m = 0\<rparr>"

text \<open>
  The map of four buckets after \<^verbatim>\<open>put(map, 1, 100)\<close> and \<^verbatim>\<open>put(map, 5, 200)\<close>:
  both keys fall into bucket 1, the later one at the head.
\<close>

definition sample_map :: ts_hashmap where
  "sample_map = \<lparr>table = [[], [\<lparr>key = 5, value_e = 200\<rparr>, \<lparr>key = 1, value_e = 100\<rparr>], [], []],
     capacity = 4, numOps = 2, size_m = 2\<rparr>"

text \<open>
  The number of \<^verbatim>\<open>del\<close> calls of a run whose scan reaches the end of the chain
  without finding the key.
\<close>

fun del_misses :: "ts_hashmap \<Rightarrow> (call \<times> bool) list \<Rightarrow> nat" where
  "del_misses m [] = 0"
| "del_misses m (c # cs) =
     (case exec m c of
        Inl f \<Rightarrow> 0
      | Inr (r, m') \<Rightarrow>
          (case fst c of
             Del k \<Rightarrow> if del_scan (table m ! bucket_index m k) k = None then 1 else 0
           | _ \<Rightarrow> 0) + del_misses m' cs)"

section \<open>Basic facts\<close>

subsection \<open>Indexing a valid map\<close>

lemma pos_sint_unat:
  fixes c :: c_int
  assumes "0 < sint c"
  shows "nat (sint c) = unat c"
proof -
  have "sint c < 2 ^ 31"
    using sint_lt [of c] by simp
  then have "sint c < 2 ^ 32"
    by simp
  with assms have "take_bit 32 (sint c) = sint c"
    by (simp add: take_bit_int_eq_self)
  then have "uint c = sint c"
    using uint_sint [of c] by simp
  then show ?thesis
    by (simp add: unat_eq_nat_uint)
qed

lemma valid_capacity: "valid_map m \<Longrightarrow> capacity m \<noteq> 0"
  by (auto simp: valid_map_def)

text \<open>
  Validity is what the statements below ask of a map. A map with capacity 0, which
  \<^verbatim>\<open>initmap(0)\<close> returns, has no bucket, and each operation divides by zero on it.
\<close>

lemma zero_capacity:
  assumes "capacity m = 0"
  shows "get m k = Inl DivByZero" and "put ok m k v = Inl DivByZero"
    and "del m k = Inl DivByZero"
  using assms by (simp_all add: get_def put_def del_def)

lemma valid_index: "valid_map m \<Longrightarrow> bucket_index m k < length (table m)"
proof -
  assume v: "valid_map m"
  then have "unat (capacity m) \<noteq> 0"
    by (auto simp: valid_map_def unat_eq_zero)
  then have "unat k mod unat (capacity m) < unat (capacity m)"
    by simp
  with v show ?thesis
    by (simp add: bucket_index_def valid_map_def unat_mod)
qed

lemma get_valid:
  "valid_map m \<Longrightarrow>
   get m k = Inr (get_scan (table m ! bucket_index m k) k, m\<lparr>numOps := numOps m + 1\<rparr>)"
  using valid_capacity [of m] valid_index [of m k]
  by (simp add: get_def bucket_index_def Let_def)

lemma put_valid:
  "valid_map m \<Longrightarrow>
   put ok m k v =
     (case put_scan (table m ! bucket_index m k) k v of
        Some (oldValue, es) \<Rightarrow>
          Inr (oldValue, m\<lparr>table := (table m)[bucket_index m k := es], numOps := numOps m + 1\<rparr>)
      | None \<Rightarrow>
          if \<not> ok then Inl NullDeref
          else Inr (INT_MAX,
            m\<lparr>table := (table m)[bucket_index m k :=
                 \<lparr>key = k, value_e = v\<rparr> # table m ! bucket_index m k],
              numOps := numOps m + 1, size_m := size_m m + 1\<rparr>))"
  using valid_capacity [of m] valid_index [of m k]
  by (simp add: put_def bucket_index_def Let_def split: option.splits)

lemma del_valid:
  "valid_map m \<Longrightarrow>
   del m k =
     (case del_scan (table m ! bucket_index m k) k of
        Some (v, es) \<Rightarrow>
          Inr (v, m\<lparr>table := (table m)[bucket_index m k := es],
                    numOps := numOps m + 1, size_m := size_m m - 1\<rparr>)
      | None \<Rightarrow> Inr (INT_MAX, m\<lparr>numOps := numOps m + 1, size_m := size_m m - 1\<rparr>))"
  using valid_capacity [of m] valid_index [of m k]
  by (simp add: del_def bucket_index_def Let_def split: option.splits)

lemma get_scan_absent: "k \<notin> key ` set es \<Longrightarrow> get_scan es k = INT_MAX"
  by (induction es) auto

lemma put_scan_None: "put_scan es k v = None \<longleftrightarrow> k \<notin> key ` set es"
  by (induction es) (auto split: option.splits)

lemma del_scan_None: "del_scan es k = None \<longleftrightarrow> k \<notin> key ` set es"
  by (induction es) (auto split: option.splits)

lemma put_scan_Some:
  "put_scan es k v = Some (old, es') \<Longrightarrow>
   old = get_scan es k \<and> map key es' = map key es \<and> get_scan es' k = v"
  by (induction es arbitrary: es') (auto split: if_splits option.splits)

lemma put_scan_present:
  "k \<in> key ` set es \<Longrightarrow> \<exists>es'. put_scan es k v = Some (get_scan es k, es')"
  by (induction es) (auto split: option.splits)

lemma del_scan_Some:
  "del_scan es k = Some (v, es') \<Longrightarrow>
   v = get_scan es k \<and> set es' \<subseteq> set es \<and> Suc (length es') = length es"
  by (induction es arbitrary: es') (auto split: if_splits option.splits)

lemma del_scan_distinct:
  "del_scan es k = Some (v, es') \<Longrightarrow> distinct (map key es) \<Longrightarrow>
   distinct (map key es') \<and> k \<notin> key ` set es'"
proof (induction es arbitrary: es')
  case Nil
  then show ?case by simp
next
  case (Cons e es)
  show ?case
  proof (cases "key e = k")
    case True
    with Cons.prems show ?thesis by auto
  next
    case False
    with Cons.prems obtain es1 where s: "del_scan es k = Some (v, es1)" and e: "es' = e # es1"
      by (auto split: option.splits)
    from Cons.prems have d: "distinct (map key es)" and n: "key e \<notin> key ` set es"
      by auto
    from Cons.IH [OF s d] have "distinct (map key es1)" and "k \<notin> key ` set es1"
      by auto
    moreover from del_scan_Some [OF s] n have "key e \<notin> key ` set es1"
      by blast
    ultimately show ?thesis
      using e False by auto
  qed
qed

subsection \<open>put and del on a valid map\<close>

lemma absent_in_bucket:
  "\<not> present m k \<Longrightarrow> i < length (table m) \<Longrightarrow> k \<notin> key ` set (table m ! i)"
  by (auto simp: present_def list_ex_iff)

lemma put_scan_split:
  "put_scan es k v = Some (old, es') \<Longrightarrow>
   \<exists>pre e post. es = pre @ e # post \<and> k \<notin> key ` set pre \<and> key e = k
     \<and> old = value_e e \<and> es' = pre @ e\<lparr>value_e := v\<rparr> # post"
proof (induction es arbitrary: es')
  case Nil
  then show ?case by simp
next
  case (Cons x xs)
  show ?case
  proof (cases "key x = k")
    case True
    with Cons.prems have "x # xs = [] @ x # xs \<and> k \<notin> key ` set [] \<and> key x = k
        \<and> old = value_e x \<and> es' = [] @ x\<lparr>value_e := v\<rparr> # xs"
      by simp
    then show ?thesis by blast
  next
    case False
    with Cons.prems obtain xs' where s: "put_scan xs k v = Some (old, xs')" and e: "es' = x # xs'"
      by (auto split: option.splits)
    from Cons.IH [OF s] obtain pre e post where
      "xs = pre @ e # post" "k \<notin> key ` set pre" "key e = k" "old = value_e e"
      "xs' = pre @ e\<lparr>value_e := v\<rparr> # post"
      by blast
    with False e have "x # xs = (x # pre) @ e # post \<and> k \<notin> key ` set (x # pre) \<and> key e = k
        \<and> old = value_e e \<and> es' = (x # pre) @ e\<lparr>value_e := v\<rparr> # post"
      by auto
    then show ?thesis by blast
  qed
qed

lemma put_present:
  assumes "valid_map m" and "k \<in> key ` set (table m ! bucket_index m k)"
  shows "\<exists>es. put ok m k v =
      Inr (get_scan (table m ! bucket_index m k) k,
           m\<lparr>table := (table m)[bucket_index m k := es], numOps := numOps m + 1\<rparr>)
    \<and> map key es = map key (table m ! bucket_index m k) \<and> get_scan es k = v"
proof -
  from put_scan_present [OF assms(2), of v] obtain es where
    s: "put_scan (table m ! bucket_index m k) k v = Some (get_scan (table m ! bucket_index m k) k, es)"
    by blast
  from put_scan_Some [OF s] have "map key es = map key (table m ! bucket_index m k)"
    and "get_scan es k = v"
    by simp_all
  with s assms(1) show ?thesis
    by (intro exI [of _ es]) (simp add: put_valid)
qed

lemma put_absent:
  assumes "valid_map m" and "k \<notin> key ` set (table m ! bucket_index m k)"
  shows "put ok m k v =
     (if ok then Inr (INT_MAX,
        m\<lparr>table := (table m)[bucket_index m k :=
             \<lparr>key = k, value_e = v\<rparr> # table m ! bucket_index m k],
          numOps := numOps m + 1, size_m := size_m m + 1\<rparr>)
      else Inl NullDeref)"
  using assms by (simp add: put_valid put_scan_None [THEN iffD2])

lemma put_then_lookup:
  assumes "valid_map m"
  shows "\<exists>m1. put True m k v = Inr (get_scan (table m ! bucket_index m k) k, m1)
    \<and> valid_map m1 \<and> bucket_index m1 k = bucket_index m k
    \<and> k \<in> key ` set (table m1 ! bucket_index m k)
    \<and> get_scan (table m1 ! bucket_index m k) k = v"
proof (cases "k \<in> key ` set (table m ! bucket_index m k)")
  case True
  from put_present [OF assms True, of True v] obtain es where
    p: "put True m k v = Inr (get_scan (table m ! bucket_index m k) k,
         m\<lparr>table := (table m)[bucket_index m k := es], numOps := numOps m + 1\<rparr>)"
    and k: "map key es = map key (table m ! bucket_index m k)" and g: "get_scan es k = v"
    by blast
  from k True have "k \<in> key ` set es"
    by (metis set_map)
  with p g assms valid_index [OF assms, of k] show ?thesis
    by (simp add: valid_map_def bucket_index_def)
next
  case False
  with assms valid_index [OF assms, of k] show ?thesis
    by (simp add: put_absent get_scan_absent valid_map_def bucket_index_def)
qed

lemma del_absent_bucket:
  assumes "valid_map m" and "k \<notin> key ` set (table m ! bucket_index m k)"
  shows "del m k = Inr (INT_MAX, m\<lparr>numOps := numOps m + 1, size_m := size_m m - 1\<rparr>)"
  using assms by (simp add: del_valid del_scan_None [THEN iffD2])

subsection \<open>What a returning call did\<close>

lemma get_Inr:
  assumes "get m k = Inr (r, m')"
  shows "m' = m\<lparr>numOps := numOps m + 1\<rparr>"
  using assms by (auto simp: get_def Let_def split: if_splits)

lemma put_Inr:
  assumes "put ok m k v = Inr (r, m')"
  shows "capacity m' = capacity m \<and> bucket_index m k < length (table m)
    \<and> (\<exists>es. table m' = (table m)[bucket_index m k := es]
        \<and> (put_scan (table m ! bucket_index m k) k v = Some (r, es)
           \<or> put_scan (table m ! bucket_index m k) k v = None
             \<and> es = \<lparr>key = k, value_e = v\<rparr> # table m ! bucket_index m k))"
  using assms
  by (auto simp: put_def Let_def bucket_index_def split: if_splits option.splits)

lemma del_Inr:
  assumes "del m k = Inr (r, m')"
  shows "capacity m' = capacity m \<and> bucket_index m k < length (table m)
    \<and> (\<exists>es. table m' = (table m)[bucket_index m k := es]
        \<and> (del_scan (table m ! bucket_index m k) k = Some (r, es)
           \<or> del_scan (table m ! bucket_index m k) k = None
             \<and> es = table m ! bucket_index m k))"
  using assms
  by (auto simp: del_def Let_def bucket_index_def split: if_splits option.splits)

lemma exec_shape:
  assumes "exec m c = Inr (r, m')"
  shows "capacity m' = capacity m" and "length (table m') = length (table m)"
proof -
  obtain op ok where c: "c = (op, ok)"
    by (cases c)
  show "capacity m' = capacity m"
    using assms c by (cases op) (auto dest: get_Inr put_Inr del_Inr)
  show "length (table m') = length (table m)"
    using assms c by (cases op) (auto dest: get_Inr put_Inr del_Inr)
qed

lemma exec_valid: "valid_map m \<Longrightarrow> exec m c = Inr (r, m') \<Longrightarrow> valid_map m'"
  using exec_shape [of m c r m'] by (simp add: valid_map_def)

lemma list_all_update:
  "list_all P xs \<Longrightarrow> P y \<Longrightarrow> list_all P (xs[i := y])"
  using set_update_subset_insert [of xs i y] by (auto simp: list_all_iff)

lemma put_unique:
  assumes "unique_keys m" and "put ok m k v = Inr (r, m')"
  shows "unique_keys m'"
proof -
  let ?i = "bucket_index m k"
  from put_Inr [OF assms(2)] obtain es where
    i: "?i < length (table m)" and t: "table m' = (table m)[?i := es]"
    and s: "put_scan (table m ! ?i) k v = Some (r, es)
      \<or> put_scan (table m ! ?i) k v = None \<and> es = \<lparr>key = k, value_e = v\<rparr> # table m ! ?i"
    by blast
  from assms(1) i have d: "distinct (map key (table m ! ?i))"
    by (simp add: unique_keys_def list_all_length)
  from s have "distinct (map key es)"
  proof
    assume "put_scan (table m ! ?i) k v = Some (r, es)"
    from put_scan_Some [OF this] d show ?thesis
      by simp
  next
    assume n: "put_scan (table m ! ?i) k v = None \<and> es = \<lparr>key = k, value_e = v\<rparr> # table m ! ?i"
    then have "k \<notin> key ` set (table m ! ?i)"
      by (simp add: put_scan_None)
    with n d show ?thesis
      by simp
  qed
  with assms(1) t show ?thesis
    by (simp add: unique_keys_def list_all_update)
qed

lemma del_unique:
  assumes "unique_keys m" and "del m k = Inr (r, m')"
  shows "unique_keys m'"
proof -
  let ?i = "bucket_index m k"
  from del_Inr [OF assms(2)] obtain es where
    i: "?i < length (table m)" and t: "table m' = (table m)[?i := es]"
    and s: "del_scan (table m ! ?i) k = Some (r, es)
      \<or> del_scan (table m ! ?i) k = None \<and> es = table m ! ?i"
    by blast
  from assms(1) i have d: "distinct (map key (table m ! ?i))"
    by (simp add: unique_keys_def list_all_length)
  from s have "distinct (map key es)"
  proof
    assume "del_scan (table m ! ?i) k = Some (r, es)"
    from del_scan_distinct [OF this d] show ?thesis
      by simp
  next
    assume "del_scan (table m ! ?i) k = None \<and> es = table m ! ?i"
    with d show ?thesis
      by simp
  qed
  with assms(1) t show ?thesis
    by (simp add: unique_keys_def list_all_update)
qed

lemma get_unique:
  assumes "unique_keys m" and "get m k = Inr (r, m')"
  shows "unique_keys m'"
  using assms(1) get_Inr [OF assms(2)] by (simp add: unique_keys_def)

lemma exec_unique:
  assumes "unique_keys m" and "exec m c = Inr (r, m')"
  shows "unique_keys m'"
proof -
  obtain op ok where c: "c = (op, ok)"
    by (cases c)
  show ?thesis
    using assms c by (cases op) (auto intro: get_unique put_unique del_unique)
qed

lemma exec_total:
  assumes "valid_map m"
  shows "\<exists>r m'. exec m (c, True) = Inr (r, m')"
  using assms
  by (cases c) (auto simp: get_valid put_valid del_valid split: option.splits)

subsection \<open>Construction\<close>

lemma init_loop_result:
  "init_loop a cap i tbl =
     (if i < cap \<and> (\<not> table_ok a \<or> \<not> entryLocks_ok a
          \<or> (\<exists>j. i \<le> j \<and> j < cap \<and> \<not> entryLock_ok a (nat j)))
      then Inl NullDeref
      else Inr (tbl @ replicate (nat (cap - i)) []))"
proof (induction a cap i tbl rule: init_loop.induct)
  case (1 a cap i tbl)
  show ?case
  proof (cases "i < cap")
    case False
    then show ?thesis
      by (simp add: init_loop.simps [of a cap i tbl])
  next
    case True
    show ?thesis
    proof (cases "table_ok a \<and> entryLocks_ok a \<and> entryLock_ok a (nat i)")
      case False
      with True show ?thesis
        by (auto simp: init_loop.simps [of a cap i tbl])
    next
      case ok: True
      have r: "replicate (nat (cap - i)) ([]::chain) = [] # replicate (nat (cap - (i + 1))) []"
        using True by (simp add: nat_diff_distrib' flip: replicate_Suc)
      have e: "(\<exists>j. i \<le> j \<and> j < cap \<and> \<not> entryLock_ok a (nat j))
          \<longleftrightarrow> (\<exists>j. i + 1 \<le> j \<and> j < cap \<and> \<not> entryLock_ok a (nat j))"
      proof
        assume "\<exists>j. i \<le> j \<and> j < cap \<and> \<not> entryLock_ok a (nat j)"
        then obtain j where j: "i \<le> j" "j < cap" "\<not> entryLock_ok a (nat j)"
          by blast
        with ok have "j \<noteq> i"
          by auto
        with j show "\<exists>j. i + 1 \<le> j \<and> j < cap \<and> \<not> entryLock_ok a (nat j)"
          by (intro exI [of _ j]) simp
      next
        assume "\<exists>j. i + 1 \<le> j \<and> j < cap \<and> \<not> entryLock_ok a (nat j)"
        then obtain j where "i + 1 \<le> j" "j < cap" "\<not> entryLock_ok a (nat j)"
          by blast
        then show "\<exists>j. i \<le> j \<and> j < cap \<and> \<not> entryLock_ok a (nat j)"
          by (intro exI [of _ j]) simp
      qed
      from True ok have "init_loop a cap i tbl = init_loop a cap (i + 1) (tbl @ [[]])"
        by (simp add: init_loop.simps [of a cap i tbl])
      also have "\<dots> = (if i + 1 < cap \<and> (\<not> table_ok a \<or> \<not> entryLocks_ok a
          \<or> (\<exists>j. i + 1 \<le> j \<and> j < cap \<and> \<not> entryLock_ok a (nat j)))
        then Inl NullDeref
        else Inr ((tbl @ [[]]) @ replicate (nat (cap - (i + 1))) []))"
        using True ok by (intro "1.IH") simp_all
      finally show ?thesis
        using True ok r e by auto
    qed
  qed
qed

lemma initmap_Inr:
  assumes "initmap a cap = Inr m0"
  shows "m0 = \<lparr>table = replicate (nat (sint cap)) [], capacity = cap, numOps = 0, size_m = 0\<rparr>"
  using assms by (simp add: initmap_def init_loop_result split: if_splits)

lemma initmap_all_ok:
  "initmap all_ok cap =
     Inr \<lparr>table = replicate (nat (sint cap)) [], capacity = cap, numOps = 0, size_m = 0\<rparr>"
  by (simp add: initmap_def init_loop_result all_ok_def)

lemma initmap_invariants:
  assumes "0 < sint cap" and "initmap a cap = Inr m0"
  shows "valid_map m0" and "unique_keys m0" and "\<not> present m0 k" and "entry_count m0 = 0"
    and "size_m m0 = 0"
  using initmap_Inr [OF assms(2)] assms(1)
  by (simp_all add: valid_map_def unique_keys_def present_def entry_count_def
      pos_sint_unat list_all_iff list_ex_iff)

lemma initmap_fault:
  "initmap a cap = Inl f \<longleftrightarrow>
     f = NullDeref \<and> (\<not> map_ok a
       \<or> 0 < sint cap \<and> (\<not> table_ok a \<or> \<not> entryLocks_ok a
            \<or> (\<exists>i < nat (sint cap). \<not> entryLock_ok a i))
       \<or> \<not> propsLock_ok a)"
proof -
  have "(\<exists>j. 0 \<le> j \<and> j < sint cap \<and> \<not> entryLock_ok a (nat j))
      \<longleftrightarrow> (\<exists>i < nat (sint cap). \<not> entryLock_ok a i)"
  proof
    assume "\<exists>j. 0 \<le> j \<and> j < sint cap \<and> \<not> entryLock_ok a (nat j)"
    then obtain j where "0 \<le> j" "j < sint cap" "\<not> entryLock_ok a (nat j)"
      by blast
    then have "nat j < nat (sint cap) \<and> \<not> entryLock_ok a (nat j)"
      by simp
    then show "\<exists>i < nat (sint cap). \<not> entryLock_ok a i"
      by blast
  next
    assume "\<exists>i < nat (sint cap). \<not> entryLock_ok a i"
    then obtain i where "i < nat (sint cap)" "\<not> entryLock_ok a i"
      by blast
    then have "0 \<le> int i \<and> int i < sint cap \<and> \<not> entryLock_ok a (nat (int i))"
      by simp
    then show "\<exists>j. 0 \<le> j \<and> j < sint cap \<and> \<not> entryLock_ok a (nat j)"
      by blast
  qed
  then show ?thesis
    by (auto simp: initmap_def init_loop_result)
qed

lemma initmap_4: "initmap all_ok 4 = Inr empty_map4"
  by (simp add: initmap_all_ok empty_map4_def numeral_eq_Suc)

lemma run_sample:
  "run empty_map4 [(Put 1 100, True), (Put 5 200, True)] = Inr sample_map"
  by (simp add: put_def empty_map4_def sample_map_def)

subsection \<open>Invariants of a run\<close>

lemma run_invariants:
  assumes "run m cs = Inr m'"
  shows "valid_map m \<Longrightarrow> valid_map m'" and "unique_keys m \<Longrightarrow> unique_keys m'"
  using assms
proof (induction cs arbitrary: m)
  case Nil
  { case 1 then show ?case by simp }
  { case 2 then show ?case by simp }
next
  case (Cons c cs)
  { case 1
    then obtain r m1 where e: "exec m c = Inr (r, m1)" and r: "run m1 cs = Inr m'"
      by (auto split: sum.splits)
    from exec_valid [OF "1"(1) e] r show ?case
      by (rule Cons.IH(1)) }
  { case 2
    then obtain r m1 where e: "exec m c = Inr (r, m1)" and r: "run m1 cs = Inr m'"
      by (auto split: sum.splits)
    from exec_unique [OF "2"(1) e] r show ?case
      by (rule Cons.IH(2)) }
qed

lemma get_scan_unique:
  "distinct (map key es) \<Longrightarrow> e \<in> set es \<Longrightarrow> get_scan es (key e) = value_e e"
  by (induction es) (auto simp: image_iff)

lemma absent_iff: "\<not> present m k \<longleftrightarrow> list_all (\<lambda>es. k \<notin> key ` set es) (table m)"
  by (auto simp: present_def list_all_iff list_ex_iff)

lemma put_absent_other:
  assumes "\<not> present m k" and "put ok m k' v = Inr (r, m')" and "k' \<noteq> k"
  shows "\<not> present m' k"
proof -
  let ?i = "bucket_index m k'"
  from put_Inr [OF assms(2)] obtain es where
    i: "?i < length (table m)" and t: "table m' = (table m)[?i := es]"
    and s: "put_scan (table m ! ?i) k' v = Some (r, es)
      \<or> put_scan (table m ! ?i) k' v = None \<and> es = \<lparr>key = k', value_e = v\<rparr> # table m ! ?i"
    by blast
  from assms(1) i have n: "k \<notin> key ` set (table m ! ?i)"
    by (rule absent_in_bucket)
  from s have "k \<notin> key ` set es"
  proof
    assume "put_scan (table m ! ?i) k' v = Some (r, es)"
    from put_scan_Some [OF this] have "map key es = map key (table m ! ?i)"
      by simp
    then have "key ` set es = key ` set (table m ! ?i)"
      by (metis set_map)
    with n show ?thesis
      by simp
  next
    assume "put_scan (table m ! ?i) k' v = None \<and> es = \<lparr>key = k', value_e = v\<rparr> # table m ! ?i"
    with n assms(3) show ?thesis
      by auto
  qed
  with assms(1) t show ?thesis
    by (simp add: absent_iff list_all_update)
qed

lemma del_absent_any:
  assumes "\<not> present m k" and "del m k' = Inr (r, m')"
  shows "\<not> present m' k"
proof -
  let ?i = "bucket_index m k'"
  from del_Inr [OF assms(2)] obtain es where
    i: "?i < length (table m)" and t: "table m' = (table m)[?i := es]"
    and s: "del_scan (table m ! ?i) k' = Some (r, es)
      \<or> del_scan (table m ! ?i) k' = None \<and> es = table m ! ?i"
    by blast
  from assms(1) i have n: "k \<notin> key ` set (table m ! ?i)"
    by (rule absent_in_bucket)
  from s have "set es \<subseteq> set (table m ! ?i)"
    by (auto dest: del_scan_Some)
  with n have "k \<notin> key ` set es"
    by auto
  with assms(1) t show ?thesis
    by (simp add: absent_iff list_all_update)
qed

lemma exec_absent:
  assumes "\<not> present m k" and "exec m c = Inr (r, m')" and "\<forall>v. fst c \<noteq> Put k v"
  shows "\<not> present m' k"
proof -
  obtain op ok where c: "c = (op, ok)"
    by (cases c)
  show ?thesis
  proof (cases op)
    case (Get k')
    with assms c show ?thesis
      by (auto dest: get_Inr simp: present_def)
  next
    case (Put k' v)
    with assms(3) c have "k' \<noteq> k"
      by auto
    with assms(1,2) c Put show ?thesis
      using put_absent_other [of m k ok k' v r m'] by simp
  next
    case (Del k')
    with assms(1,2) c show ?thesis
      using del_absent_any [of m k k' r m'] by simp
  qed
qed

lemma run_absent:
  assumes "run m cs = Inr m'" and "\<not> present m k" and "\<forall>c \<in> set cs. \<forall>v. fst c \<noteq> Put k v"
  shows "\<not> present m' k"
  using assms
proof (induction cs arbitrary: m)
  case Nil
  then show ?case by simp
next
  case (Cons c cs)
  from Cons.prems(1) obtain r m1 where e: "exec m c = Inr (r, m1)" and r: "run m1 cs = Inr m'"
    by (auto split: sum.splits)
  from Cons.prems(3) have "\<forall>v. fst c \<noteq> Put k v" and rest: "\<forall>c \<in> set cs. \<forall>v. fst c \<noteq> Put k v"
    by simp_all
  from exec_absent [OF Cons.prems(2) e this(1)] have "\<not> present m1 k" .
  from Cons.IH [OF r this rest] show ?case .
qed

lemma count_key_le_1:
  "distinct (map key es) \<longleftrightarrow> (\<forall>k. length (filter (\<lambda>e. key e = k) es) \<le> 1)"
proof (induction es)
  case Nil
  then show ?case by simp
next
  case (Cons e es)
  have f: "filter (\<lambda>x. key x = key e) es = [] \<longleftrightarrow> key e \<notin> key ` set es"
    by (auto simp: filter_empty_conv image_iff)
  show ?case
  proof
    assume d: "distinct (map key (e # es))"
    with Cons.IH f show "\<forall>k. length (filter (\<lambda>x. key x = k) (e # es)) \<le> 1"
      by auto
  next
    assume a: "\<forall>k. length (filter (\<lambda>x. key x = k) (e # es)) \<le> 1"
    then have "length (filter (\<lambda>x. key x = key e) (e # es)) \<le> 1"
      by blast
    then have 1: "key e \<notin> key ` set es"
      using f by simp
    have "length (filter (\<lambda>x. key x = k) es) \<le> 1" for k
      using a [rule_format, of k] by (simp split: if_splits)
    with Cons.IH 1 show "distinct (map key (e # es))"
      by simp
  qed
qed

subsection \<open>The size counter against the number of entries\<close>

lemma entry_count_update:
  assumes "i < length (table m)" and "table m' = (table m)[i := es]"
  shows "entry_count m' + length (table m ! i) = entry_count m + length es"
proof -
  have "length (table m ! i) \<le> sum_list (map length (table m))"
    using assms(1) by (simp add: member_le_sum_list)
  with assms show ?thesis
    by (simp add: entry_count_def map_update sum_list_update)
qed

lemma put_counts:
  assumes "put ok m k v = Inr (r, m')"
  shows "size_m m' - of_nat (entry_count m') = size_m m - of_nat (entry_count m)"
proof -
  let ?i = "bucket_index m k"
  from put_Inr [OF assms] obtain es where
    i: "?i < length (table m)" and t: "table m' = (table m)[?i := es]"
    and s: "put_scan (table m ! ?i) k v = Some (r, es)
      \<or> put_scan (table m ! ?i) k v = None \<and> es = \<lparr>key = k, value_e = v\<rparr> # table m ! ?i"
    by blast
  note c = entry_count_update [OF i t]
  from s show ?thesis
  proof
    assume h: "put_scan (table m ! ?i) k v = Some (r, es)"
    from put_scan_Some [OF h] have "length es = length (table m ! ?i)"
      by (metis length_map)
    with c have "entry_count m' = entry_count m"
      by simp
    moreover from assms h i have "size_m m' = size_m m"
      by (auto simp: put_def bucket_index_def Let_def split: if_splits)
    ultimately show ?thesis
      by simp
  next
    assume h: "put_scan (table m ! ?i) k v = None \<and> es = \<lparr>key = k, value_e = v\<rparr> # table m ! ?i"
    with c have "entry_count m' = entry_count m + 1"
      by simp
    moreover from assms h i have "size_m m' = size_m m + 1"
      by (auto simp: put_def bucket_index_def Let_def split: if_splits)
    ultimately show ?thesis
      by simp
  qed
qed

lemma del_counts:
  assumes "del m k = Inr (r, m')"
  shows "size_m m' - of_nat (entry_count m') =
    size_m m - of_nat (entry_count m)
      - (if del_scan (table m ! bucket_index m k) k = None then 1 else 0)"
proof -
  let ?i = "bucket_index m k"
  from del_Inr [OF assms] obtain es where
    i: "?i < length (table m)" and t: "table m' = (table m)[?i := es]"
    and s: "del_scan (table m ! ?i) k = Some (r, es)
      \<or> del_scan (table m ! ?i) k = None \<and> es = table m ! ?i"
    by blast
  note c = entry_count_update [OF i t]
  have z: "size_m m' = size_m m - 1"
    using assms by (auto simp: del_def Let_def split: if_splits option.splits)
  from s show ?thesis
  proof
    assume h: "del_scan (table m ! ?i) k = Some (r, es)"
    from del_scan_Some [OF h] have "Suc (length es) = length (table m ! ?i)"
      by simp
    with c have "entry_count m = entry_count m' + 1"
      by simp
    with z h show ?thesis
      by simp
  next
    assume h: "del_scan (table m ! ?i) k = None \<and> es = table m ! ?i"
    with c have "entry_count m' = entry_count m"
      by simp
    with z h show ?thesis
      by simp
  qed
qed

lemma run_counts:
  assumes "run m cs = Inr m'"
  shows "size_m m' - of_nat (entry_count m') =
    size_m m - of_nat (entry_count m) - of_nat (del_misses m cs)"
  using assms
proof (induction cs arbitrary: m)
  case Nil
  then show ?case by simp
next
  case (Cons c cs)
  from Cons.prems obtain r m1 where e: "exec m c = Inr (r, m1)" and r: "run m1 cs = Inr m'"
    by (auto split: sum.splits)
  obtain op ok where c: "c = (op, ok)"
    by (cases c)
  have "size_m m1 - of_nat (entry_count m1) =
    size_m m - of_nat (entry_count m)
      - of_nat (case op of
           Del k \<Rightarrow> if del_scan (table m ! bucket_index m k) k = None then 1 else 0
         | _ \<Rightarrow> 0)"
  proof (cases op)
    case (Get k)
    with e c have "m1 = m\<lparr>numOps := numOps m + 1\<rparr>"
      by (auto dest: get_Inr)
    with Get show ?thesis
      by (simp add: entry_count_def)
  next
    case (Put k v)
    with e c put_counts [of ok m k v r m1] show ?thesis
      by simp
  next
    case (Del k)
    with e c del_counts [of m k r m1] show ?thesis
      by simp
  qed
  with Cons.IH [OF r] e c show ?case
    by simp
qed

lemma size_counts_entries:
  assumes "initmap a cap = Inr m0" and "run m0 cs = Inr m"
  shows "size_m m = of_nat (entry_count m) - of_nat (del_misses m0 cs)"
proof -
  from initmap_Inr [OF assms(1)] have "size_m m0 = 0" and "entry_count m0 = 0"
    by (simp_all add: entry_count_def)
  with run_counts [OF assms(2)] show ?thesis
    by (simp add: algebra_simps)
qed

section \<open>The operations\<close>

subsection \<open>The size counter after a del that finds nothing\<close>

text \<open>
  By \<open>size_counts_entries\<close> the counter \<^verbatim>\<open>size\<close> equals the number of entries of
  all chains as long as every \<^verbatim>\<open>del\<close> of the run found its key: \<^verbatim>\<open>put\<close> steps
  the counter only when it links a new entry, while \<^verbatim>\<open>del\<close> steps it down before it
  looks at the bucket.

  C1. In every state reached by complete calls, \<^verbatim>\<open>size\<close> is the number of entries
  summed over all chains. The code leaves this state after \<^verbatim>\<open>initmap(4)\<close> and
  \<^verbatim>\<open>del(map, 1)\<close>: the call returns \<^verbatim>\<open>INT_MAX\<close>, all four chains are empty and
  \<^verbatim>\<open>size\<close> is \<open>-1\<close>.
\<close>

theorem size_after_absent_del:
  "initmap all_ok 4 = Inr empty_map4
   \<and> del empty_map4 1 = Inr (INT_MAX, empty_map4\<lparr>numOps := 1, size_m := - 1\<rparr>)
   \<and> sint (size_m (empty_map4\<lparr>numOps := 1, size_m := - 1\<rparr>)) = - 1
   \<and> entry_count (empty_map4\<lparr>numOps := 1, size_m := - 1\<rparr>) = 0"
  using initmap_4 by (simp add: del_def empty_map4_def entry_count_def)

subsection \<open>del of a key that is not in the map\<close>

text \<open>
  C2. On a valid map, \<^verbatim>\<open>del\<close> of a key that no chain holds returns \<^verbatim>\<open>INT_MAX\<close>,
  creates no entry and leaves the table as it was, and still counts: \<^verbatim>\<open>numOps\<close> is
  one more and \<^verbatim>\<open>size\<close> is one less, since both are stepped before the bucket is read.
\<close>

theorem del_absent:
  assumes "valid_map m" and "\<not> present m k"
  shows "\<exists>m'. del m k = Inr (INT_MAX, m') \<and> table m' = table m \<and> capacity m' = capacity m
    \<and> entry_count m' = entry_count m \<and> \<not> present m' k
    \<and> numOps m' = numOps m + 1 \<and> size_m m' = size_m m - 1"
proof -
  from assms valid_index [OF assms(1), of k]
  have "k \<notin> key ` set (table m ! bucket_index m k)"
    by (simp add: absent_in_bucket)
  from del_absent_bucket [OF assms(1) this] assms(2) show ?thesis
    by (simp add: entry_count_def present_def)
qed

theorem del_absent_witness:
  "valid_map sample_map \<and> \<not> present sample_map 9
   \<and> del sample_map 9 = Inr (INT_MAX, sample_map\<lparr>numOps := 3, size_m := 1\<rparr>)
   \<and> entry_count sample_map = 2"
proof -
  have v: "valid_map sample_map"
    by (simp add: valid_map_def sample_map_def)
  have p: "\<not> present sample_map 9"
    by (simp add: present_def sample_map_def)
  from del_absent [OF v p] obtain m' where
    d: "del sample_map 9 = Inr (INT_MAX, m')" and "table m' = table sample_map"
    "capacity m' = capacity sample_map" "numOps m' = numOps sample_map + 1"
    "size_m m' = size_m sample_map - 1"
    by blast
  then have "m' = sample_map\<lparr>numOps := 3, size_m := 1\<rparr>"
    by (simp add: sample_map_def)
  with d v p show ?thesis
    by (simp add: entry_count_def sample_map_def)
qed

subsection \<open>The value get returns\<close>

text \<open>
  C3. On a map built by \<^verbatim>\<open>initmap\<close> with a positive capacity and any calls after it,
  \<^verbatim>\<open>get\<close> returns; the value is the one of the entry with the key in bucket
  \<^verbatim>\<open>((unsigned int)key) % capacity\<close> when the chain has such an entry, and
  \<^verbatim>\<open>INT_MAX\<close> when the chain has none. For a key that no call of the run has put, it
  is \<^verbatim>\<open>INT_MAX\<close>.
\<close>

theorem get_lookup:
  assumes "0 < sint cap" and "initmap a cap = Inr m0" and "run m0 cs = Inr m"
  shows "\<exists>r m'. get m k = Inr (r, m')
    \<and> (\<forall>e \<in> set (table m ! bucket_index m k). key e = k \<longrightarrow> r = value_e e)
    \<and> ((\<forall>e \<in> set (table m ! bucket_index m k). key e \<noteq> k) \<longrightarrow> r = INT_MAX)
    \<and> ((\<forall>c \<in> set cs. \<forall>v. fst c \<noteq> Put k v) \<longrightarrow> r = INT_MAX)"
proof -
  let ?es = "table m ! bucket_index m k"
  have v: "valid_map m" and u: "unique_keys m"
    using run_invariants [OF assms(3)] initmap_invariants [OF assms(1,2)] by simp_all
  have i: "bucket_index m k < length (table m)"
    by (rule valid_index [OF v])
  with u have d: "distinct (map key ?es)"
    by (simp add: unique_keys_def list_all_length)
  have 1: "\<forall>e \<in> set ?es. key e = k \<longrightarrow> get_scan ?es k = value_e e"
    using get_scan_unique [OF d] by blast
  have 2: "(\<forall>e \<in> set ?es. key e \<noteq> k) \<longrightarrow> get_scan ?es k = INT_MAX"
    by (auto intro: get_scan_absent)
  have 3: "(\<forall>c \<in> set cs. \<forall>v. fst c \<noteq> Put k v) \<longrightarrow> get_scan ?es k = INT_MAX"
  proof
    assume "\<forall>c \<in> set cs. \<forall>v. fst c \<noteq> Put k v"
    with run_absent [OF assms(3), of k] initmap_invariants(3) [OF assms(1,2), of k]
    have "\<not> present m k"
      by simp
    from absent_in_bucket [OF this i] show "get_scan ?es k = INT_MAX"
      by (rule get_scan_absent)
  qed
  from get_valid [OF v, of k] 1 2 3 show ?thesis
    by simp
qed

theorem get_lookup_witness:
  "0 < sint (4 :: c_int) \<and> initmap all_ok 4 = Inr empty_map4
   \<and> run empty_map4 [(Put 1 100, True), (Put 5 200, True)] = Inr sample_map
   \<and> (\<exists>m'. get sample_map 5 = Inr (200, m'))
   \<and> (\<exists>m'. get sample_map 9 = Inr (INT_MAX, m'))"
proof -
  have c: "0 < sint (4 :: c_int)"
    by simp
  note l = get_lookup [OF c initmap_4 run_sample]
  have i: "bucket_index sample_map 5 = 1"
    by (simp add: bucket_index_def sample_map_def)
  have "\<lparr>key = 5, value_e = 200\<rparr> \<in> set (table sample_map ! bucket_index sample_map 5)"
    by (simp add: i) (simp add: sample_map_def)
  with l [of 5] have 5: "\<exists>m'. get sample_map 5 = Inr (200, m')"
    by fastforce
  have "\<forall>c \<in> set [(Put 1 100, True), (Put 5 200, True)]. \<forall>v. fst c \<noteq> Put (9 :: c_int) v"
    by simp
  with l [of 9] have 9: "\<exists>m'. get sample_map 9 = Inr (INT_MAX, m')"
    by blast
  from c initmap_4 run_sample 5 9 show ?thesis
    by blast
qed

subsection \<open>put on a key twice\<close>

text \<open>
  C4. On a valid map, after \<^verbatim>\<open>put(k, v1)\<close> the call \<^verbatim>\<open>put(k, v2)\<close> returns
  \<open>v1\<close> whatever its allocation would give (it allocates nothing) and
  \<^verbatim>\<open>get(k)\<close> then returns \<open>v2\<close>. The second \<^verbatim>\<open>put\<close> stores the value in the
  entry that is there: the chain differs in the value of that one entry only, and
  \<^verbatim>\<open>size\<close> and the number of entries stay as they were.
\<close>

theorem put_twice:
  assumes "valid_map m"
  shows "\<exists>r1 m1. put True m k v1 = Inr (r1, m1)
    \<and> (\<forall>ok. \<exists>m2 m3. put ok m1 k v2 = Inr (v1, m2) \<and> get m2 k = Inr (v2, m3)
          \<and> size_m m2 = size_m m1 \<and> entry_count m2 = entry_count m1
          \<and> (\<exists>pre e post. table m1 ! bucket_index m k = pre @ e # post
                \<and> k \<notin> key ` set pre \<and> key e = k \<and> value_e e = v1
                \<and> table m2 = (table m1)[bucket_index m k := pre @ e\<lparr>value_e := v2\<rparr> # post]))"
proof -
  let ?i = "bucket_index m k"
  from put_then_lookup [OF assms, of k v1] obtain m1 where
    p1: "put True m k v1 = Inr (get_scan (table m ! ?i) k, m1)"
    and v1: "valid_map m1" and i1: "bucket_index m1 k = ?i"
    and k1: "k \<in> key ` set (table m1 ! ?i)"
    and g1: "get_scan (table m1 ! ?i) k = v1"
    by blast
  have j: "?i < length (table m1)"
    using valid_index [OF v1, of k] i1 by simp
  have "\<exists>m2 m3. put ok m1 k v2 = Inr (v1, m2) \<and> get m2 k = Inr (v2, m3)
          \<and> size_m m2 = size_m m1 \<and> entry_count m2 = entry_count m1
          \<and> (\<exists>pre e post. table m1 ! ?i = pre @ e # post
                \<and> k \<notin> key ` set pre \<and> key e = k \<and> value_e e = v1
                \<and> table m2 = (table m1)[?i := pre @ e\<lparr>value_e := v2\<rparr> # post])" for ok
  proof -
    from put_present [of m1 k ok v2] v1 k1 i1 g1 obtain es where
      p2: "put ok m1 k v2 = Inr (v1, m1\<lparr>table := (table m1)[?i := es], numOps := numOps m1 + 1\<rparr>)"
      and ks: "map key es = map key (table m1 ! ?i)" and g2: "get_scan es k = v2"
      by auto
    let ?m2 = "m1\<lparr>table := (table m1)[?i := es], numOps := numOps m1 + 1\<rparr>"
    have v2: "valid_map ?m2"
      using v1 by (simp add: valid_map_def)
    have i2: "bucket_index ?m2 k = ?i"
      using i1 by (simp add: bucket_index_def)
    have g: "get ?m2 k = Inr (v2, ?m2\<lparr>numOps := numOps ?m2 + 1\<rparr>)"
      using get_valid [OF v2, of k] i2 j g2 by simp
    have km: "map (map key) ((table m1)[?i := es]) = map (map key) (table m1)"
      using ks j by (simp add: map_update list_update_same_conv)
    have "map length ((table m1)[?i := es]) = map length (table m1)"
      using arg_cong [OF km, of "map length"] by (simp add: comp_def)
    then have "entry_count ?m2 = entry_count m1"
      by (simp add: entry_count_def)
    from put_Inr [OF p2] i1 k1 obtain es' where
      t2: "table ?m2 = (table m1)[?i := es']"
      and s2: "put_scan (table m1 ! ?i) k v2 = Some (v1, es')"
      by (auto simp: put_scan_None)
    from put_scan_split [OF s2] t2
    have "\<exists>pre e post. table m1 ! ?i = pre @ e # post
        \<and> k \<notin> key ` set pre \<and> key e = k \<and> value_e e = v1
        \<and> table ?m2 = (table m1)[?i := pre @ e\<lparr>value_e := v2\<rparr> # post]"
      by metis
    with p2 g \<open>entry_count ?m2 = entry_count m1\<close> show ?thesis
      by (intro exI [of _ ?m2] exI [of _ "?m2\<lparr>numOps := numOps ?m2 + 1\<rparr>"]) simp
  qed
  with p1 show ?thesis
    by blast
qed

theorem put_twice_witness:
  "valid_map sample_map
   \<and> (\<exists>r1 m1. put True sample_map 9 10 = Inr (r1, m1)
       \<and> (\<exists>m2 m3. put False m1 9 20 = Inr (10, m2) \<and> get m2 9 = Inr (20, m3)
            \<and> size_m m2 = size_m m1))"
proof -
  have v: "valid_map sample_map"
    by (simp add: valid_map_def sample_map_def)
  from put_twice [OF v, of 9 10 20] v show ?thesis
    by blast
qed

subsection \<open>put of a new key\<close>

text \<open>
  C5. On a valid map, \<^verbatim>\<open>put\<close> of a key that no chain holds, with the allocation
  succeeding, links a new entry at the head of the chain of bucket
  \<^verbatim>\<open>((unsigned int)key) % capacity\<close>: the new entry is first and the old chain follows
  it, the other buckets are as before. The call returns \<^verbatim>\<open>INT_MAX\<close>, and
  \<^verbatim>\<open>numOps\<close> and \<^verbatim>\<open>size\<close> are one more each.
\<close>

theorem put_new_key:
  assumes "valid_map m" and "\<not> present m k"
  shows "\<exists>m'. put True m k v = Inr (INT_MAX, m')
    \<and> table m' = (table m)[bucket_index m k :=
         \<lparr>key = k, value_e = v\<rparr> # table m ! bucket_index m k]
    \<and> bucket_index m k < length (table m)
    \<and> hd (table m' ! bucket_index m k) = \<lparr>key = k, value_e = v\<rparr>
    \<and> tl (table m' ! bucket_index m k) = table m ! bucket_index m k
    \<and> (\<forall>j < length (table m). j \<noteq> bucket_index m k \<longrightarrow> table m' ! j = table m ! j)
    \<and> capacity m' = capacity m
    \<and> numOps m' = numOps m + 1 \<and> size_m m' = size_m m + 1
    \<and> entry_count m' = entry_count m + 1"
proof -
  let ?i = "bucket_index m k"
  have i: "?i < length (table m)"
    by (rule valid_index [OF assms(1)])
  with assms(2) have a: "k \<notin> key ` set (table m ! ?i)"
    by (simp add: absent_in_bucket)
  have c: "sum_list (map length ((table m)[?i := \<lparr>key = k, value_e = v\<rparr> # table m ! ?i]))
      = sum_list (map length (table m)) + 1"
    using i by (simp add: sum_list_update map_update)
  from put_absent [OF assms(1) a, of True v] i c show ?thesis
    by (simp add: entry_count_def)
qed

theorem put_new_key_witness:
  "valid_map sample_map \<and> \<not> present sample_map 9
   \<and> put True sample_map 9 300 = Inr (INT_MAX,
       \<lparr>table = [[], [\<lparr>key = 9, value_e = 300\<rparr>, \<lparr>key = 5, value_e = 200\<rparr>,
                      \<lparr>key = 1, value_e = 100\<rparr>], [], []],
        capacity = 4, numOps = 3, size_m = 3\<rparr>)"
proof -
  have v: "valid_map sample_map"
    by (simp add: valid_map_def sample_map_def)
  have p: "\<not> present sample_map 9"
    by (simp add: present_def sample_map_def)
  have i: "bucket_index sample_map 9 = 1"
    by (simp add: bucket_index_def sample_map_def)
  from put_new_key [OF v p, of 300] obtain m' where
    d: "put True sample_map 9 300 = Inr (INT_MAX, m')"
    and "table m' = (table sample_map)[bucket_index sample_map 9 :=
         \<lparr>key = 9, value_e = 300\<rparr> # table sample_map ! bucket_index sample_map 9]"
    "capacity m' = capacity sample_map" "numOps m' = numOps sample_map + 1"
    "size_m m' = size_m sample_map + 1"
    by blast
  then have "m' = \<lparr>table = [[], [\<lparr>key = 9, value_e = 300\<rparr>, \<lparr>key = 5, value_e = 200\<rparr>,
                      \<lparr>key = 1, value_e = 100\<rparr>], [], []],
        capacity = 4, numOps = 3, size_m = 3\<rparr>"
    by (simp add: i) (simp add: sample_map_def)
  with d v p show ?thesis
    by simp
qed

subsection \<open>put, then get\<close>

text \<open>
  C6. On a valid map, \<^verbatim>\<open>put(k, v)\<close> with the allocation succeeding returns, and the
  \<^verbatim>\<open>get(k)\<close> right after it returns \<open>v\<close>, whether the key was in the map or not.
\<close>

theorem put_then_get:
  assumes "valid_map m"
  shows "\<exists>r m1 m2. put True m k v = Inr (r, m1) \<and> get m1 k = Inr (v, m2)"
proof -
  from put_then_lookup [OF assms, of k v] obtain m1 where
    p: "put True m k v = Inr (get_scan (table m ! bucket_index m k) k, m1)"
    and v1: "valid_map m1" and i: "bucket_index m1 k = bucket_index m k"
    and g: "get_scan (table m1 ! bucket_index m k) k = v"
    by blast
  from get_valid [OF v1, of k] i g have "get m1 k = Inr (v, m1\<lparr>numOps := numOps m1 + 1\<rparr>)"
    by simp
  with p show ?thesis
    by blast
qed

theorem put_then_get_witness:
  "valid_map sample_map
   \<and> (\<exists>r m1 m2. put True sample_map 5 7 = Inr (r, m1) \<and> get m1 5 = Inr (7, m2))
   \<and> (\<exists>r m1 m2. put True sample_map 9 7 = Inr (r, m1) \<and> get m1 9 = Inr (7, m2))"
proof -
  have v: "valid_map sample_map"
    by (simp add: valid_map_def sample_map_def)
  from put_then_get [OF v, of 5 7] put_then_get [OF v, of 9 7] v show ?thesis
    by simp
qed

subsection \<open>del, then get\<close>

text \<open>
  C7. On a map built by \<^verbatim>\<open>initmap\<close> with a positive capacity and any calls after it,
  \<^verbatim>\<open>del(k)\<close> returns, and the \<^verbatim>\<open>get(k)\<close> right after it returns
  \<^verbatim>\<open>INT_MAX\<close>.
\<close>

theorem del_then_get:
  assumes "0 < sint cap" and "initmap a cap = Inr m0" and "run m0 cs = Inr m"
  shows "\<exists>r m1 m2. del m k = Inr (r, m1) \<and> get m1 k = Inr (INT_MAX, m2)"
proof -
  let ?i = "bucket_index m k"
  have v: "valid_map m" and u: "unique_keys m"
    using run_invariants [OF assms(3)] initmap_invariants [OF assms(1,2)] by simp_all
  have i: "?i < length (table m)"
    by (rule valid_index [OF v])
  with u have d: "distinct (map key (table m ! ?i))"
    by (simp add: unique_keys_def list_all_length)
  obtain r m1 where e: "del m k = Inr (r, m1)"
    using del_valid [OF v, of k] by (auto split: option.splits)
  from del_Inr [OF e] obtain es where
    c: "capacity m1 = capacity m" and t: "table m1 = (table m)[?i := es]"
    and s: "del_scan (table m ! ?i) k = Some (r, es)
      \<or> del_scan (table m ! ?i) k = None \<and> es = table m ! ?i"
    by blast
  from s have n: "k \<notin> key ` set es"
  proof
    assume "del_scan (table m ! ?i) k = Some (r, es)"
    from del_scan_distinct [OF this d] show ?thesis
      by simp
  next
    assume "del_scan (table m ! ?i) k = None \<and> es = table m ! ?i"
    then show ?thesis
      by (simp add: del_scan_None)
  qed
  have v1: "valid_map m1"
    using exec_valid [OF v, of "(Del k, True)" r m1] e by simp
  have "bucket_index m1 k = ?i"
    using c by (simp add: bucket_index_def)
  with t i n have "get_scan (table m1 ! bucket_index m1 k) k = INT_MAX"
    by (simp add: get_scan_absent)
  with get_valid [OF v1, of k] e show ?thesis
    by simp
qed

theorem del_then_get_witness:
  "0 < sint (4 :: c_int) \<and> initmap all_ok 4 = Inr empty_map4
   \<and> run empty_map4 [(Put 1 100, True), (Put 5 200, True)] = Inr sample_map
   \<and> (\<exists>r m1 m2. del sample_map 1 = Inr (r, m1) \<and> get m1 1 = Inr (INT_MAX, m2))"
proof -
  have c: "0 < sint (4 :: c_int)"
    by simp
  from del_then_get [OF c initmap_4 run_sample, of 1] c initmap_4 run_sample show ?thesis
    by blast
qed

subsection \<open>One entry per key in a chain\<close>

text \<open>
  C8. No chain holds two entries with the same key: this holds for the map
  \<^verbatim>\<open>initmap\<close> returns; a \<^verbatim>\<open>get\<close>, \<^verbatim>\<open>put\<close> or \<^verbatim>\<open>del\<close> that starts with
  it ends with it (and on a valid map each of them does return when the allocation
  succeeds); so in every state of a run each chain has at most one entry for any key.
\<close>

theorem unique_keys_invariant:
  "(initmap a cap = Inr m0 \<longrightarrow> unique_keys m0)
   \<and> (unique_keys m \<and> exec m c = Inr (r, m') \<longrightarrow> unique_keys m')
   \<and> (valid_map m \<and> unique_keys m \<longrightarrow>
        (\<exists>r1 m1. exec m (op, True) = Inr (r1, m1) \<and> valid_map m1 \<and> unique_keys m1))
   \<and> (initmap a cap = Inr m0 \<and> run m0 cs = Inr m2 \<longrightarrow>
        (\<forall>es \<in> set (table m2). \<forall>k. length (filter (\<lambda>e. key e = k) es) \<le> 1))"
proof (intro conjI impI)
  assume "initmap a cap = Inr m0"
  from initmap_Inr [OF this] show "unique_keys m0"
    by (simp add: unique_keys_def list_all_iff)
next
  assume "unique_keys m \<and> exec m c = Inr (r, m')"
  then show "unique_keys m'"
    using exec_unique by blast
next
  assume a: "valid_map m \<and> unique_keys m"
  then obtain r1 m1 where e: "exec m (op, True) = Inr (r1, m1)"
    using exec_total by blast
  with a have "valid_map m1" and "unique_keys m1"
    using exec_valid exec_unique by blast+
  with e show "\<exists>r1 m1. exec m (op, True) = Inr (r1, m1) \<and> valid_map m1 \<and> unique_keys m1"
    by blast
next
  assume a: "initmap a cap = Inr m0 \<and> run m0 cs = Inr m2"
  then have "unique_keys m0"
    using initmap_Inr [of a cap m0] by (simp add: unique_keys_def list_all_iff)
  with a have "unique_keys m2"
    using run_invariants(2) by blast
  then show "\<forall>es \<in> set (table m2). \<forall>k. length (filter (\<lambda>e. key e = k) es) \<le> 1"
    by (simp add: unique_keys_def list_all_iff count_key_le_1)
qed

theorem unique_keys_invariant_witness:
  "initmap all_ok 4 = Inr empty_map4 \<and> unique_keys empty_map4
   \<and> run empty_map4 [(Put 1 100, True), (Put 5 200, True)] = Inr sample_map
   \<and> valid_map sample_map \<and> unique_keys sample_map
   \<and> exec sample_map (Put 1 7, False) = Inr (100, sample_map
        \<lparr>table := [[], [\<lparr>key = 5, value_e = 200\<rparr>, \<lparr>key = 1, value_e = 7\<rparr>], [], []],
         numOps := 3\<rparr>)
   \<and> unique_keys (sample_map
        \<lparr>table := [[], [\<lparr>key = 5, value_e = 200\<rparr>, \<lparr>key = 1, value_e = 7\<rparr>], [], []],
         numOps := 3\<rparr>)
   \<and> (\<exists>r1 m1. exec sample_map (Del 5, True) = Inr (r1, m1) \<and> valid_map m1 \<and> unique_keys m1)
   \<and> length (filter (\<lambda>e. key e = 5) (table sample_map ! 1)) \<le> 1"
proof -
  let ?m' = "sample_map
        \<lparr>table := [[], [\<lparr>key = 5, value_e = 200\<rparr>, \<lparr>key = 1, value_e = 7\<rparr>], [], []],
         numOps := 3\<rparr>"
  have v: "valid_map sample_map"
    by (simp add: valid_map_def sample_map_def)
  have u: "unique_keys sample_map"
    by (simp add: unique_keys_def sample_map_def)
  have e: "exec sample_map (Put 1 7, False) = Inr (100, ?m')"
    by (simp add: put_def sample_map_def)
  note t = unique_keys_invariant [of all_ok 4 empty_map4 sample_map "(Put 1 7, False)" 100 ?m'
      "Del 5" "[(Put 1 100, True), (Put 5 200, True)]" sample_map]
  have "table sample_map ! 1 \<in> set (table sample_map)"
    by (simp add: sample_map_def)
  with t initmap_4 run_sample
  have "length (filter (\<lambda>e. key e = 5) (table sample_map ! 1)) \<le> 1"
    by blast
  with t initmap_4 run_sample v u e show ?thesis
    by blast
qed

subsection \<open>A failed allocation\<close>

text \<open>
  C9 as stated: when an allocation fails in \<^verbatim>\<open>initmap\<close> or in \<^verbatim>\<open>put\<close>, the
  failure is reported and no null pointer is dereferenced. The code fails this when the
  \<^verbatim>\<open>malloc\<close> of the map returns \<^verbatim>\<open>NULL\<close> in \<^verbatim>\<open>initmap(4)\<close>, and when the
  \<^verbatim>\<open>malloc\<close> of the entry returns \<^verbatim>\<open>NULL\<close> in \<^verbatim>\<open>put\<close> of the new key 9: both
  write through the null pointer.
\<close>

theorem alloc_failure_counterexample:
  "initmap (all_ok\<lparr>map_ok := False\<rparr>) 4 = Inl NullDeref
   \<and> put False sample_map 9 300 = Inl NullDeref"
  by (simp add: initmap_def put_def sample_map_def)

text \<open>
  C9, amended. The code checks no result of \<^verbatim>\<open>malloc\<close>. \<^verbatim>\<open>initmap\<close> ends in a
  null dereference exactly when the allocation of the map fails, or the capacity is
  positive and the allocation of the table, of the lock array or of the mutex of one of
  the buckets fails, or the allocation of the spin lock fails; it has no other fault. On
  a valid map, \<^verbatim>\<open>put\<close> with a failing allocation ends in a null dereference exactly
  when the key is not in its bucket (for a key that is there it allocates nothing), and
  it has no other fault. No failure is reported in either.
\<close>

theorem unchecked_allocation:
  "(initmap a cap = Inl NullDeref \<longleftrightarrow>
      \<not> map_ok a
      \<or> 0 < sint cap \<and> (\<not> table_ok a \<or> \<not> entryLocks_ok a
           \<or> (\<exists>i < nat (sint cap). \<not> entryLock_ok a i))
      \<or> \<not> propsLock_ok a)
   \<and> (\<forall>f. initmap a cap = Inl f \<longrightarrow> f = NullDeref)
   \<and> (valid_map m \<longrightarrow>
        (put False m k v = Inl NullDeref \<longleftrightarrow> k \<notin> key ` set (table m ! bucket_index m k))
        \<and> (\<forall>f. put False m k v = Inl f \<longrightarrow> f = NullDeref))"
proof (intro conjI impI allI)
  show "initmap a cap = Inl NullDeref \<longleftrightarrow>
      \<not> map_ok a
      \<or> 0 < sint cap \<and> (\<not> table_ok a \<or> \<not> entryLocks_ok a
           \<or> (\<exists>i < nat (sint cap). \<not> entryLock_ok a i))
      \<or> \<not> propsLock_ok a"
    by (simp add: initmap_fault)
next
  fix f
  assume "initmap a cap = Inl f"
  then show "f = NullDeref"
    by (simp add: initmap_fault)
next
  assume v: "valid_map m"
  show "put False m k v = Inl NullDeref \<longleftrightarrow> k \<notin> key ` set (table m ! bucket_index m k)"
  proof (cases "k \<in> key ` set (table m ! bucket_index m k)")
    case True
    with put_present [OF v True, of False v] show ?thesis
      by auto
  next
    case False
    with put_absent [OF v False, of False v] show ?thesis
      by simp
  qed
next
  fix f
  assume v: "valid_map m" and p: "put False m k v = Inl f"
  show "f = NullDeref"
  proof (cases "k \<in> key ` set (table m ! bucket_index m k)")
    case True
    with put_present [OF v True, of False v] p show ?thesis
      by auto
  next
    case False
    with put_absent [OF v False, of False v] p show ?thesis
      by simp
  qed
qed

theorem unchecked_allocation_witness:
  "0 < sint (4 :: c_int) \<and> (2 :: nat) < nat (sint (4 :: c_int))
   \<and> initmap (all_ok\<lparr>entryLock_ok := (\<lambda>i. i \<noteq> 2)\<rparr>) 4 = Inl NullDeref
   \<and> valid_map sample_map
   \<and> 9 \<notin> key ` set (table sample_map ! bucket_index sample_map 9)
   \<and> put False sample_map 9 300 = Inl NullDeref
   \<and> 5 \<in> key ` set (table sample_map ! bucket_index sample_map 5)
   \<and> put False sample_map 5 300 \<noteq> Inl NullDeref"
proof -
  let ?a = "all_ok\<lparr>entryLock_ok := (\<lambda>i. i \<noteq> 2)\<rparr>"
  have c: "0 < sint (4 :: c_int)" and l: "(2 :: nat) < nat (sint (4 :: c_int))"
    by simp_all
  have "\<not> entryLock_ok ?a 2"
    by simp
  with l have x: "\<exists>i < nat (sint (4 :: c_int)). \<not> entryLock_ok ?a i"
    by blast
  have v: "valid_map sample_map"
    by (simp add: valid_map_def sample_map_def)
  have i: "bucket_index sample_map 9 = 1" "bucket_index sample_map 5 = 1"
    by (simp_all add: bucket_index_def sample_map_def)
  have 9: "9 \<notin> key ` set (table sample_map ! bucket_index sample_map 9)"
    by (simp add: i) (simp add: sample_map_def)
  have 5: "5 \<in> key ` set (table sample_map ! bucket_index sample_map 5)"
    by (simp add: i) (simp add: sample_map_def)
  from unchecked_allocation [of ?a 4 sample_map 9 300]
    unchecked_allocation [of ?a 4 sample_map 5 300] c l x v 9 5
  show ?thesis
    by blast
qed

subsection \<open>The frame of get\<close>

text \<open>
  C10. On a map with a positive capacity and one slot per bucket, \<^verbatim>\<open>get\<close> returns a
  value and leaves the map as it was except for \<^verbatim>\<open>numOps\<close>, which is one more (the
  \<^verbatim>\<open>++\<close> of a 32-bit counter): the capacity, \<^verbatim>\<open>size\<close> and the whole table, the
  scanned chain included, are the same before and after, whether the key is found or not.
\<close>

theorem get_frame:
  assumes "valid_map m"
  shows "\<exists>v m'. get m k = Inr (v, m') \<and> m' = m\<lparr>numOps := numOps m + 1\<rparr>
    \<and> numOps m' = numOps m + 1 \<and> capacity m' = capacity m \<and> size_m m' = size_m m
    \<and> table m' = table m"
  using assms by (simp add: get_valid)

theorem get_frame_witness:
  "valid_map sample_map
   \<and> get sample_map 1 = Inr (100, sample_map\<lparr>numOps := 3\<rparr>)
   \<and> get sample_map 2 = Inr (INT_MAX, sample_map\<lparr>numOps := 3\<rparr>)"
proof -
  have v: "valid_map sample_map"
    by (simp add: valid_map_def sample_map_def)
  have i1: "bucket_index sample_map 1 = 1" and i2: "bucket_index sample_map 2 = 2"
    by (simp_all add: bucket_index_def sample_map_def)
  from get_frame [OF v, of 1] get_frame [OF v, of 2] v show ?thesis
    by (simp add: get_valid i1 i2) (simp add: sample_map_def)
qed

end
